theory Spec2Isabelle
  imports Main
begin

section \<open>SQL text utilities of the SQLite driver (ogrsqliteutility.cpp)\<close>

text \<open>
  The functions of \<^verbatim>\<open>ogr/ogrsf_frmts/sqlite/ogrsqliteutility.cpp\<close> that work on
  text: \<^verbatim>\<open>SQLUnescape\<close>, \<^verbatim>\<open>SQLEscapeLiteral\<close>, \<^verbatim>\<open>SQLEscapeName\<close> and \<^verbatim>\<open>SQLTokenize\<close>.

  A \<^verbatim>\<open>const char*\<close> is modelled by the list of the characters stored from the pointer
  on: the head of the list is \<^verbatim>\<open>*p\<close>, its tail is \<^verbatim>\<open>p + 1\<close>. The C string ends at the
  first NUL character; reading where the list has ended gives NUL as well, which is the
  terminator of a string whose characters are all in the list. A \<^verbatim>\<open>CPLString\<close>
  (a \<^verbatim>\<open>std::string\<close>) is a \<open>string\<close>, \<^verbatim>\<open>+=\<close> appends at its end.
\<close>

subsection \<open>C strings\<close>

abbreviation NUL :: char where "NUL \<equiv> CHR 0x00"
abbreviation SQ :: char where "SQ \<equiv> CHR 0x27"
abbreviation DQ :: char where "DQ \<equiv> CHR 0x22"

text \<open>\<^verbatim>\<open>*p\<close>, and \<^verbatim>\<open>p[1]\<close> as \<open>deref (tl p)\<close>.\<close>

definition deref :: "string \<Rightarrow> char" where
  "deref p = (case p of [] \<Rightarrow> NUL | c # _ \<Rightarrow> c)"

text \<open>\<^verbatim>\<open>p[i]\<close> for an index \<open>i\<close> that is not negative.\<close>

definition at_index :: "string \<Rightarrow> nat \<Rightarrow> char" where
  "at_index p i = (if i < length p then p ! i else NUL)"

text \<open>The text a pointer denotes: the characters before the first NUL. It is what the
  conversion of a \<^verbatim>\<open>const char*\<close> to a \<^verbatim>\<open>CPLString\<close> copies.\<close>

definition cstr :: "string \<Rightarrow> string" where
  "cstr p = takeWhile (\<lambda>c. c \<noteq> NUL) p"

subsection \<open>SQLUnescape\<close>

text \<open>
  The loop of \<^verbatim>\<open>SQLUnescape\<close>, entered after \<^verbatim>\<open>pszVal ++\<close> has skipped the opening quote:
  \<^verbatim>\<open>
    while( *pszVal != '\0' )
    {
        if( *pszVal == chQuoteChar )
        {
            if( pszVal[1] == chQuoteChar )
                pszVal ++;
            else
                break;
        }
        osRet += *pszVal;
        pszVal ++;
    }
    return osRet;
  \<close>
  In the doubled case the character appended is the second quote, and the pointer moves
  past it.
\<close>

fun SQLUnescape_loop :: "char \<Rightarrow> string \<Rightarrow> string \<Rightarrow> string" where
  "SQLUnescape_loop chQuoteChar [] osRet = osRet"
| "SQLUnescape_loop chQuoteChar (c # p) osRet =
     (if c = NUL then osRet
      else if c = chQuoteChar then
        (if deref p = chQuoteChar
         then SQLUnescape_loop chQuoteChar (tl p) (osRet @ [deref p])
         else osRet)
      else SQLUnescape_loop chQuoteChar p (osRet @ [c]))"

definition SQLUnescape :: "string \<Rightarrow> string" where
  "SQLUnescape pszVal =
     (let chQuoteChar = deref pszVal in
      if chQuoteChar \<noteq> SQ \<and> chQuoteChar \<noteq> DQ then cstr pszVal
      else SQLUnescape_loop chQuoteChar (tl pszVal) [])"

subsection \<open>SQLEscapeLiteral\<close>

text \<open>
  \<^verbatim>\<open>
    CPLString osVal;
    for( int i = 0; pszLiteral[i] != '\0'; i++ )
    {
        if ( pszLiteral[i] == '\'' )
            osVal += '\'';
        osVal += pszLiteral[i];
    }
    return osVal;
  \<close>
  The index \<open>i\<close> is an \<^verbatim>\<open>int\<close> of 32 bits that starts at 0 and only grows, so a \<open>nat\<close>
  holds its value. \<^verbatim>\<open>i++\<close> at \<open>INT_MAX\<close> is a signed overflow, which C++ leaves
  undefined: the model returns \<open>None\<close> there, and \<open>Some\<close> of the string returned
  otherwise.
\<close>

definition INT_MAX :: nat where
  "INT_MAX = 2147483647"

function SQLEscapeLiteral_loop :: "string \<Rightarrow> nat \<Rightarrow> string \<Rightarrow> string option" where
  "SQLEscapeLiteral_loop pszLiteral i osVal =
     (if at_index pszLiteral i = NUL then Some osVal
      else if i = INT_MAX then None
      else SQLEscapeLiteral_loop pszLiteral (i + 1)
             ((if at_index pszLiteral i = SQ then osVal @ [SQ] else osVal)
                @ [at_index pszLiteral i]))"
  by pat_completeness auto
termination
  by (relation "measure (\<lambda>(p, i, r). length p - i)") (auto simp: at_index_def split: if_splits)

declare SQLEscapeLiteral_loop.simps [simp del]

definition SQLEscapeLiteral :: "string \<Rightarrow> string option" where
  "SQLEscapeLiteral pszLiteral = SQLEscapeLiteral_loop pszLiteral 0 []"

subsection \<open>SQLEscapeName\<close>

text \<open>
  \<^verbatim>\<open>
    while( *pszName != '\0' )
    {
        if( *pszName == '"' )
            osRet += "\"\"";
        else
            osRet += *pszName;
        pszName ++;
    }
  \<close>
  This loop walks the pointer and keeps no counter.
\<close>

fun SQLEscapeName_loop :: "string \<Rightarrow> string \<Rightarrow> string" where
  "SQLEscapeName_loop [] osRet = osRet"
| "SQLEscapeName_loop (c # p) osRet =
     (if c = NUL then osRet
      else if c = DQ then SQLEscapeName_loop p (osRet @ [DQ, DQ])
      else SQLEscapeName_loop p (osRet @ [c]))"

definition SQLEscapeName :: "string \<Rightarrow> string" where
  "SQLEscapeName pszName = SQLEscapeName_loop pszName []"

subsection \<open>SQLTokenize\<close>

text \<open>The local variables of \<^verbatim>\<open>SQLTokenize\<close>, under their names.\<close>

record tok_state =
  papszTokens :: "string list"
  bInQuote :: bool
  chQuoteChar :: char
  bInSpace :: bool
  osCurrentToken :: string

text \<open>Modelled from the spec: \<^verbatim>\<open>CSLAddString\<close> (port/cpl_string.cpp) is not among the
  sources. The spec calls its use "append to output": the list with a copy of the string
  added at its end. The null list is the empty list.\<close>

definition CSLAddString :: "string list \<Rightarrow> string \<Rightarrow> string list" where
  "CSLAddString papszStrList pszNewString = papszStrList @ [pszNewString]"

text \<open>The state at the declarations, before the loop.\<close>

definition tok_init :: tok_state where
  "tok_init = \<lparr>papszTokens = [], bInQuote = False, chQuoteChar = NUL,
               bInSpace = True, osCurrentToken = []\<rparr>"

text \<open>The flush of both separator branches:
  \<^verbatim>\<open>
    if( !bInSpace )
    {
        papszTokens = CSLAddString(papszTokens, osCurrentToken);
        osCurrentToken.clear();
    }
  \<close>\<close>

definition flush_word :: "tok_state \<Rightarrow> tok_state" where
  "flush_word st =
     (if \<not> bInSpace st
      then st\<lparr>papszTokens := CSLAddString (papszTokens st) (osCurrentToken st),
              osCurrentToken := []\<rparr>
      else st)"

text \<open>One turn of the \<^verbatim>\<open>while( *pszStr != '\0' )\<close> loop, at a pointer with
  \<^verbatim>\<open>*pszStr != '\0'\<close>: the pointer and the variables after it, the branches in the order
  of the source. The doubled quote is the one branch that moves the pointer by two
  (\<^verbatim>\<open>pszStr += 2; continue;\<close>); every other branch falls through to \<^verbatim>\<open>pszStr ++\<close>.\<close>

definition tok_step :: "string \<Rightarrow> tok_state \<Rightarrow> string \<times> tok_state" where
  "tok_step pszStr st =
     (let c = deref pszStr; pszNext = tl pszStr in
      if c = CHR '' '' \<and> \<not> bInQuote st then
        (pszNext, (flush_word st)\<lparr>bInSpace := True\<rparr>)
      else if (c = CHR ''('' \<or> c = CHR '')'' \<or> c = CHR '','') \<and> \<not> bInQuote st then
        (pszNext,
         (flush_word st)\<lparr>papszTokens := CSLAddString (papszTokens (flush_word st)) [c],
                            osCurrentToken := [],
                            bInSpace := True\<rparr>)
      else if c = DQ \<or> c = SQ then
        (if bInQuote st \<and> c = chQuoteChar st \<and> deref pszNext = chQuoteChar st then
           (tl pszNext, st\<lparr>osCurrentToken := osCurrentToken st @ [c, c]\<rparr>)
         else if bInQuote st \<and> c = chQuoteChar st then
           (pszNext,
            st\<lparr>papszTokens := CSLAddString (papszTokens st) (osCurrentToken st @ [c]),
                 osCurrentToken := [],
                 bInSpace := True,
                 bInQuote := False,
                 chQuoteChar := NUL\<rparr>)
         else if bInQuote st then
           (pszNext, st\<lparr>osCurrentToken := osCurrentToken st @ [c]\<rparr>)
         else
           (pszNext,
            st\<lparr>chQuoteChar := c,
                 osCurrentToken := [c],
                 bInQuote := True,
                 bInSpace := False\<rparr>))
      else
        (pszNext, st\<lparr>osCurrentToken := osCurrentToken st @ [c], bInSpace := False\<rparr>))"

function SQLTokenize_loop :: "string \<Rightarrow> tok_state \<Rightarrow> tok_state" where
  "SQLTokenize_loop pszStr st =
     (if deref pszStr = NUL then st
      else SQLTokenize_loop (fst (tok_step pszStr st)) (snd (tok_step pszStr st)))"
  by pat_completeness auto
termination
proof (relation "measure (\<lambda>(p, st). length p)")
  fix pszStr :: string and st :: tok_state
  assume "deref pszStr \<noteq> NUL"
  then obtain c p where "pszStr = c # p"
    by (cases pszStr) (auto simp: deref_def)
  then have "length (fst (tok_step pszStr st)) < length pszStr"
    by (auto simp: tok_step_def Let_def deref_def less_Suc_eq_le)
  then show "((fst (tok_step pszStr st), snd (tok_step pszStr st)), (pszStr, st))
               \<in> measure (\<lambda>(p, st). length p)"
    by (simp add: case_prod_beta)
qed simp

declare SQLTokenize_loop.simps [simp del]

text \<open>After the loop:
  \<^verbatim>\<open>
    if( !osCurrentToken.empty() )
        papszTokens = CSLAddString(papszTokens, osCurrentToken);
    return papszTokens;
  \<close>\<close>

definition tok_finish :: "tok_state \<Rightarrow> string list" where
  "tok_finish st =
     (if osCurrentToken st \<noteq> []
      then CSLAddString (papszTokens st) (osCurrentToken st)
      else papszTokens st)"

definition SQLTokenize :: "string \<Rightarrow> string list" where
  "SQLTokenize pszStr = tok_finish (SQLTokenize_loop pszStr tok_init)"

subsection \<open>Notions the statements use\<close>

text \<open>The configuration of the loop of \<^verbatim>\<open>SQLTokenize\<close> after \<open>n\<close> turns: the pointer and the
  variables. A loop that has left before the \<open>n\<close>-th turn stays where it left.\<close>

fun tok_run :: "nat \<Rightarrow> string \<times> tok_state \<Rightarrow> string \<times> tok_state" where
  "tok_run 0 cfg = cfg"
| "tok_run (Suc n) cfg =
     (if deref (fst cfg) = NUL then cfg else tok_run n (tok_step (fst cfg) (snd cfg)))"

text \<open>What every turn of the loop keeps: no empty string in the list, the flag \<open>bInSpace\<close>
  set exactly when the accumulator is empty, and inside a quoted span an accumulator that
  starts with the quote character that opened it.\<close>

definition tok_inv :: "tok_state \<Rightarrow> bool" where
  "tok_inv st \<longleftrightarrow>
     [] \<notin> set (papszTokens st) \<and>
     bInSpace st = (osCurrentToken st = []) \<and>
     (bInQuote st \<longrightarrow> (chQuoteChar st = SQ \<or> chQuoteChar st = DQ) \<and>
        osCurrentToken st \<noteq> [] \<and> hd (osCurrentToken st) = chQuoteChar st)"

text \<open>The punctuation characters of the second branch.\<close>

definition is_punct :: "char \<Rightarrow> bool" where
  "is_punct c \<longleftrightarrow> c = CHR ''('' \<or> c = CHR '')'' \<or> c = CHR '',''"

text \<open>The literal escaper in the words of the specification: every single quote is
  emitted twice, every other character passes through unchanged.\<close>

definition escapeLiteral_spec :: "string \<Rightarrow> string" where
  "escapeLiteral_spec raw = concat (map (\<lambda>c. if c = SQ then [c, c] else [c]) raw)"

text \<open>The unescaper in the words of the specification, on the text that follows the
  opening quote \<open>q\<close>: a \<open>q\<close> followed by a \<open>q\<close> gives one \<open>q\<close> and the scan moves by two; a
  \<open>q\<close> not followed by a \<open>q\<close> stops the scan and is not emitted; any other character is
  emitted; the end of the text ends the scan.\<close>

fun unescape_spec :: "char \<Rightarrow> string \<Rightarrow> string" where
  "unescape_spec q [] = []"
| "unescape_spec q [c] = (if c = q then [] else [c])"
| "unescape_spec q (c # d # r) =
     (if c = q \<and> d = q then q # unescape_spec q r
      else if c = q then []
      else c # unescape_spec q (d # r))"

section \<open>Properties\<close>

subsection \<open>C strings\<close>

lemma cstr_Nil [simp]: "cstr [] = []"
  by (simp add: cstr_def)

lemma cstr_Cons [simp]: "cstr (c # p) = (if c = NUL then [] else c # cstr p)"
  by (simp add: cstr_def)

lemma NUL_notin_cstr [simp]: "NUL \<notin> set (cstr p)"
  by (induction p) simp_all

lemma cstr_id: "NUL \<notin> set p \<Longrightarrow> cstr p = p"
  by (induction p) auto

lemma deref_Nil [simp]: "deref [] = NUL"
  by (simp add: deref_def)

lemma deref_Cons [simp]: "deref (c # p) = c"
  by (simp add: deref_def)

lemma length_cstr_le: "length (cstr p) \<le> length p"
  by (simp add: cstr_def length_takeWhile_le)

lemma at_index_end: "at_index p (length (cstr p)) = NUL"
  using nth_length_takeWhile [of "\<lambda>c. c \<noteq> NUL" p]
  by (simp add: at_index_def cstr_def)

lemma at_index_cstr: "i < length (cstr p) \<Longrightarrow> at_index p i = cstr p ! i"
  using length_cstr_le [of p] takeWhile_nth [of i "\<lambda>c. c \<noteq> NUL" p]
  by (simp add: at_index_def cstr_def)

lemma at_index_not_NUL: "i < length (cstr p) \<Longrightarrow> at_index p i \<noteq> NUL"
proof -
  assume lt: "i < length (cstr p)"
  then have "cstr p ! i \<in> set (cstr p)" by (rule nth_mem)
  then have "cstr p ! i \<noteq> NUL" using NUL_notin_cstr [of p] by metis
  with lt show ?thesis by (simp add: at_index_cstr)
qed

subsection \<open>The literal escaper\<close>

lemma escapeLiteral_spec_Nil [simp]: "escapeLiteral_spec [] = []"
  by (simp add: escapeLiteral_spec_def)

lemma escapeLiteral_spec_Cons [simp]:
  "escapeLiteral_spec (c # s) = (if c = SQ then [SQ, SQ] else [c]) @ escapeLiteral_spec s"
  by (simp add: escapeLiteral_spec_def)

text \<open>From index \<open>i\<close> on, the loop appends the escaped rest of the text, as long as the
  text has at most \<open>INT_MAX\<close> characters.\<close>

lemma SQLEscapeLiteral_loop_short:
  "length (cstr p) \<le> INT_MAX \<Longrightarrow> i \<le> length (cstr p) \<Longrightarrow>
   SQLEscapeLiteral_loop p i acc = Some (acc @ escapeLiteral_spec (drop i (cstr p)))"
proof (induction "length (cstr p) - i" arbitrary: i acc)
  case 0
  then have "i = length (cstr p)" by simp
  then show ?case
    by (subst SQLEscapeLiteral_loop.simps) (simp add: at_index_end)
next
  case (Suc k)
  then have lt: "i < length (cstr p)" by simp
  with Suc.prems have ni: "i \<noteq> INT_MAX" by simp
  have nz: "at_index p i \<noteq> NUL" by (rule at_index_not_NUL [OF lt])
  have d: "drop i (cstr p) = at_index p i # drop (Suc i) (cstr p)"
    using lt by (simp add: Cons_nth_drop_Suc at_index_cstr)
  from Suc.hyps(2) have k: "k = length (cstr p) - Suc i" by simp
  from lt have "Suc i \<le> length (cstr p)" by simp
  note IH = Suc.hyps(1) [OF k Suc.prems(1) this]
  have "SQLEscapeLiteral_loop p i acc =
        SQLEscapeLiteral_loop p (Suc i)
          ((if at_index p i = SQ then acc @ [SQ] else acc) @ [at_index p i])"
    by (subst SQLEscapeLiteral_loop.simps) (simp add: nz ni)
  then show ?case by (simp add: IH d)
qed

text \<open>A text of more than \<open>INT_MAX\<close> characters takes the index to \<open>INT_MAX\<close> with a
  character still to read, and the increment overflows.\<close>

lemma SQLEscapeLiteral_loop_long:
  "INT_MAX < length (cstr p) \<Longrightarrow> i \<le> INT_MAX \<Longrightarrow> SQLEscapeLiteral_loop p i acc = None"
proof (induction "INT_MAX - i" arbitrary: i acc)
  case 0
  then have "i = INT_MAX" by simp
  with "0.prems" show ?case
    by (subst SQLEscapeLiteral_loop.simps) (simp add: at_index_not_NUL)
next
  case (Suc k)
  then have lt: "i < length (cstr p)" and ni: "i \<noteq> INT_MAX" by simp_all
  from Suc.hyps(2) have k: "k = INT_MAX - Suc i" and le: "Suc i \<le> INT_MAX" by simp_all
  note IH = Suc.hyps(1) [OF k Suc.prems(1) le]
  show ?case
    by (subst SQLEscapeLiteral_loop.simps) (simp add: at_index_not_NUL [OF lt] ni IH)
qed

lemma SQLEscapeLiteral_short:
  "length (cstr s) \<le> INT_MAX \<Longrightarrow> SQLEscapeLiteral s = Some (escapeLiteral_spec (cstr s))"
  by (simp add: SQLEscapeLiteral_def SQLEscapeLiteral_loop_short)

lemma SQLEscapeLiteral_long:
  "INT_MAX < length (cstr s) \<Longrightarrow> SQLEscapeLiteral s = None"
  by (simp add: SQLEscapeLiteral_def SQLEscapeLiteral_loop_long)

lemma SQLEscapeLiteral_Some:
  "SQLEscapeLiteral s = Some e \<Longrightarrow> e = escapeLiteral_spec (cstr s)"
  using SQLEscapeLiteral_short [of s] SQLEscapeLiteral_long [of s]
  by (cases "length (cstr s) \<le> INT_MAX") simp_all

text \<open>The identifier escaper doubles the double quotes of a text of any length.\<close>

lemma SQLEscapeName_loop_doubles:
  "SQLEscapeName_loop p acc =
     acc @ concat (map (\<lambda>c. if c = DQ then [c, c] else [c]) (cstr p))"
  by (induction p acc rule: SQLEscapeName_loop.induct) simp_all

lemma SQLEscapeName_doubles:
  "SQLEscapeName s = concat (map (\<lambda>c. if c = DQ then [c, c] else [c]) (cstr s))"
  by (simp add: SQLEscapeName_def SQLEscapeName_loop_doubles)

text \<open>
  Claim C6. \<^verbatim>\<open>SQLEscapeLiteral\<close> emits every single quote of its input twice and every
  other character once, adds no delimiter around the result, and returns for every
  input, the empty one included.

  The first conjunct is that behaviour, for every text of at most \<open>INT_MAX\<close> characters:
  the result is the text with its single quotes doubled and nothing before or after.
  The second and third are what the \<^verbatim>\<open>int\<close> index does to a longer text: at a text of
  \<open>2\<^sup>3\<^sup>1\<close> characters the increment of \<open>i\<close> overflows and no result is defined, although
  the claim promises one for every input. \<^verbatim>\<open>SQLEscapeName\<close>, which walks the pointer,
  has no such bound.
\<close>

theorem SQLEscapeLiteral_doubles_until_int_overflow:
  "(length (cstr s) \<le> INT_MAX \<longrightarrow>
      SQLEscapeLiteral s = Some (concat (map (\<lambda>c. if c = SQ then [c, c] else [c]) (cstr s))))
   \<and> (INT_MAX < length (cstr s) \<longrightarrow> SQLEscapeLiteral s = None)
   \<and> SQLEscapeLiteral (replicate 2147483648 (CHR ''a'')) = None
   \<and> SQLEscapeLiteral ''it's'' = Some (''it'' @ [SQ, SQ] @ ''s'')
   \<and> SQLEscapeLiteral [] = Some []"
proof (intro conjI impI)
  assume "length (cstr s) \<le> INT_MAX"
  then have "SQLEscapeLiteral s = Some (escapeLiteral_spec (cstr s))"
    by (rule SQLEscapeLiteral_short)
  then show "SQLEscapeLiteral s =
      Some (concat (map (\<lambda>c. if c = SQ then [c, c] else [c]) (cstr s)))"
    by (simp add: escapeLiteral_spec_def)
next
  assume "INT_MAX < length (cstr s)"
  then show "SQLEscapeLiteral s = None"
    by (rule SQLEscapeLiteral_long)
next
  show "SQLEscapeLiteral (replicate 2147483648 (CHR ''a'')) = None"
    by (rule SQLEscapeLiteral_long) (simp add: cstr_def INT_MAX_def)
next
  show "SQLEscapeLiteral ''it's'' = Some (''it'' @ [SQ, SQ] @ ''s'')"
    by (simp add: SQLEscapeLiteral_short INT_MAX_def)
next
  show "SQLEscapeLiteral [] = Some []"
    by (simp add: SQLEscapeLiteral_short)
qed

theorem SQLEscapeLiteral_doubles_until_int_overflow_witness:
  "SQLEscapeLiteral (''a'b'' @ [NUL] @ ''c'') = Some (''a'' @ [SQ, SQ] @ ''b'')
   \<and> SQLEscapeLiteral (replicate 2147483649 (CHR ''b'')) = None"
  using SQLEscapeLiteral_doubles_until_int_overflow [of "''a'b'' @ [NUL] @ ''c''"]
    SQLEscapeLiteral_doubles_until_int_overflow [of "replicate 2147483649 (CHR ''b'')"]
  by (simp add: INT_MAX_def cstr_def)

text \<open>
  Claim C9. \<^verbatim>\<open>SQLEscapeLiteral\<close> is not idempotent: some input escapes to a text that
  escapes to a different text. The text of one single quote does: it escapes to two
  quotes, and those to four.
\<close>

theorem SQLEscapeLiteral_not_idempotent:
  "\<exists>s e e'. SQLEscapeLiteral s = Some e \<and> SQLEscapeLiteral e = Some e' \<and> e' \<noteq> e"
proof (intro exI conjI)
  show "SQLEscapeLiteral [SQ] = Some [SQ, SQ]"
    by (simp add: SQLEscapeLiteral_short INT_MAX_def)
  show "SQLEscapeLiteral [SQ, SQ] = Some [SQ, SQ, SQ, SQ]"
    by (simp add: SQLEscapeLiteral_short INT_MAX_def)
  show "[SQ, SQ, SQ, SQ] \<noteq> [SQ, SQ]"
    by simp
qed

subsection \<open>The unescaper\<close>

text \<open>The loop computes the unescaper of the specification on the text after the
  opening quote, whatever the accumulator holds.\<close>

lemma SQLUnescape_loop_spec:
  "SQLUnescape_loop q p acc = acc @ unescape_spec q (cstr p)"
proof (induction q p acc rule: SQLUnescape_loop.induct)
  case (1 q acc)
  then show ?case by simp
next
  case (2 q c p acc)
  show ?case
  proof (cases p)
    case Nil
    then show ?thesis by simp
  next
    case (Cons d r)
    with 2 show ?thesis by auto
  qed
qed

text \<open>Characters that are neither the quote nor NUL are copied.\<close>

lemma SQLUnescape_loop_plain:
  "q \<notin> set a \<Longrightarrow> NUL \<notin> set a \<Longrightarrow>
   SQLUnescape_loop q (a @ r) acc = SQLUnescape_loop q r (acc @ a)"
  by (induction a arbitrary: acc) auto

text \<open>The unescaper undoes the escaped text between two single quotes.\<close>

lemma SQLUnescape_loop_escaped:
  "NUL \<notin> set t \<Longrightarrow> SQLUnescape_loop SQ (escapeLiteral_spec t @ [SQ]) acc = acc @ t"
  by (induction t arbitrary: acc) auto

text \<open>
  Claim C7. If the token is empty or its first character is neither a single nor a
  double quote, \<^verbatim>\<open>SQLUnescape\<close> returns the token unchanged; otherwise, with \<open>q\<close> the first
  character, it collapses each doubled \<open>q\<close> to one \<open>q\<close>, stops at the first undoubled \<open>q\<close>
  without emitting it, and emits everything up to the end of the input when no closing
  delimiter occurs.

  The token is the text \<open>cstr s\<close> the pointer denotes. The first conjunct states the whole
  claim, with the scan after the opening quote in the words of the specification
  (\<open>unescape_spec\<close>). The next three are the three clauses of the scan on the function
  itself, for a stretch \<open>a\<close> of characters other than \<open>q\<close>: a doubled \<open>q\<close> after it yields
  one \<open>q\<close> and the scan goes on with the rest \<open>r\<close>; a \<open>q\<close> not followed by \<open>q\<close> ends the
  result there; with nothing after \<open>a\<close>, all of \<open>a\<close> is the result.
\<close>

theorem SQLUnescape_passes_or_collapses:
  "SQLUnescape s =
     (if cstr s = [] \<or> (hd (cstr s) \<noteq> SQ \<and> hd (cstr s) \<noteq> DQ) then cstr s
      else unescape_spec (hd (cstr s)) (tl (cstr s)))
   \<and> ((q = SQ \<or> q = DQ) \<and> q \<notin> set a \<and> NUL \<notin> set a \<longrightarrow>
        SQLUnescape (q # a @ q # q # r) = a @ q # SQLUnescape (q # r))
   \<and> ((q = SQ \<or> q = DQ) \<and> q \<notin> set a \<and> NUL \<notin> set a \<and> deref r \<noteq> q \<longrightarrow>
        SQLUnescape (q # a @ q # r) = a)
   \<and> ((q = SQ \<or> q = DQ) \<and> q \<notin> set a \<and> NUL \<notin> set a \<longrightarrow>
        SQLUnescape (q # a) = a)
   \<and> SQLUnescape ''bareword'' = ''bareword''
   \<and> SQLUnescape [] = []
   \<and> SQLUnescape (SQ # ''it'' @ [SQ, SQ] @ ''s'' @ [SQ]) = ''it's''
   \<and> SQLUnescape (DQ # ''a'' @ [DQ, DQ] @ ''b'' @ [DQ]) = ''a'' @ [DQ] @ ''b''"
proof (intro conjI impI)
  show "SQLUnescape s =
     (if cstr s = [] \<or> (hd (cstr s) \<noteq> SQ \<and> hd (cstr s) \<noteq> DQ) then cstr s
      else unescape_spec (hd (cstr s)) (tl (cstr s)))"
    by (cases s) (auto simp: SQLUnescape_def SQLUnescape_loop_spec)
next
  assume h: "(q = SQ \<or> q = DQ) \<and> q \<notin> set a \<and> NUL \<notin> set a"
  then have "SQLUnescape_loop q (a @ q # q # r) [] = SQLUnescape_loop q (q # q # r) a"
    using SQLUnescape_loop_plain [of q a "q # q # r" "[]"] by simp
  also from h have "\<dots> = SQLUnescape_loop q r (a @ [q])" by auto
  also have "\<dots> = a @ q # SQLUnescape_loop q r []"
    by (simp add: SQLUnescape_loop_spec)
  finally show "SQLUnescape (q # a @ q # q # r) = a @ q # SQLUnescape (q # r)"
    using h by (auto simp: SQLUnescape_def)
next
  assume h: "(q = SQ \<or> q = DQ) \<and> q \<notin> set a \<and> NUL \<notin> set a \<and> deref r \<noteq> q"
  then have "SQLUnescape_loop q (a @ q # r) [] = SQLUnescape_loop q (q # r) a"
    using SQLUnescape_loop_plain [of q a "q # r" "[]"] by simp
  also from h have "\<dots> = a" by auto
  finally show "SQLUnescape (q # a @ q # r) = a"
    using h by (auto simp: SQLUnescape_def)
next
  assume h: "(q = SQ \<or> q = DQ) \<and> q \<notin> set a \<and> NUL \<notin> set a"
  then have "SQLUnescape_loop q a [] = a"
    using SQLUnescape_loop_plain [of q a "[]" "[]"] by simp
  then show "SQLUnescape (q # a) = a"
    using h by (auto simp: SQLUnescape_def)
next
  show "SQLUnescape ''bareword'' = ''bareword''"
    by (simp add: SQLUnescape_def)
next
  show "SQLUnescape [] = []"
    by (simp add: SQLUnescape_def)
next
  show "SQLUnescape (SQ # ''it'' @ [SQ, SQ] @ ''s'' @ [SQ]) = ''it's''"
    by (simp add: SQLUnescape_def)
next
  show "SQLUnescape (DQ # ''a'' @ [DQ, DQ] @ ''b'' @ [DQ]) = ''a'' @ [DQ] @ ''b''"
    by (simp add: SQLUnescape_def)
qed

theorem SQLUnescape_passes_or_collapses_witness:
  "SQLUnescape (DQ # ''x y'' @ [DQ, DQ] @ ''z'' @ [DQ] @ ''w'') = ''x y'' @ [DQ] @ ''z''
   \<and> SQLUnescape (SQ # ''x y'' @ [SQ] @ ''zw'') = ''x y''
   \<and> SQLUnescape (SQ # ''x y'') = ''x y''"
proof -
  have z: "SQLUnescape (DQ # ''z'' @ [DQ] @ ''w'') = ''z''"
    using SQLUnescape_passes_or_collapses [of _ DQ "''z''" "''w''"]
    by simp
  show ?thesis
    using SQLUnescape_passes_or_collapses [of _ DQ "''x y''" "''z'' @ [DQ] @ ''w''"]
      SQLUnescape_passes_or_collapses [of _ SQ "''x y''" "''zw''"] z
    by simp
qed

text \<open>
  Claim C2. Round trip between the escaper and the unescaper: for every text \<open>s\<close>,
  \<^verbatim>\<open>SQLUnescape\<close> of the escaped text between two single quotes is \<open>s\<close>.

  First conjunct: for every pointer \<open>s\<close> whose text \<open>cstr s\<close> has at most \<open>INT_MAX\<close>
  characters, \<^verbatim>\<open>SQLEscapeLiteral\<close> returns a text \<open>e\<close>, and unescaping \<^verbatim>\<open>'e'\<close> gives back
  \<open>cstr s\<close>. No condition on the characters of \<open>s\<close> is needed: quotes in \<open>s\<close> are doubled
  by the one function and collapsed by the other. Second and third conjunct: on a longer
  text, and so on the text of \<open>2\<^sup>3\<^sup>1\<close> characters, the \<^verbatim>\<open>int\<close> index of
  \<^verbatim>\<open>SQLEscapeLiteral\<close> overflows, there is no escaped text to unescape, and the round trip
  the claim promises for every text does not take place.
\<close>

theorem SQLUnescape_SQLEscapeLiteral_roundtrip_until_int_overflow:
  "(length (cstr s) \<le> INT_MAX \<longrightarrow>
      (\<exists>e. SQLEscapeLiteral s = Some e \<and> SQLUnescape (SQ # e @ [SQ]) = cstr s))
   \<and> (INT_MAX < length (cstr s) \<longrightarrow>
        \<not> (\<exists>e. SQLEscapeLiteral s = Some e \<and> SQLUnescape (SQ # e @ [SQ]) = cstr s))
   \<and> SQLEscapeLiteral (replicate 2147483648 (CHR ''a'')) = None
   \<and> \<not> (\<exists>e. SQLEscapeLiteral (replicate 2147483648 (CHR ''a'')) = Some e
              \<and> SQLUnescape (SQ # e @ [SQ]) = replicate 2147483648 (CHR ''a''))"
proof (intro conjI impI)
  assume le: "length (cstr s) \<le> INT_MAX"
  then have e: "SQLEscapeLiteral s = Some (escapeLiteral_spec (cstr s))"
    by (rule SQLEscapeLiteral_short)
  have "SQLUnescape (SQ # escapeLiteral_spec (cstr s) @ [SQ]) = cstr s"
    by (simp add: SQLUnescape_def SQLUnescape_loop_escaped)
  with e show "\<exists>e. SQLEscapeLiteral s = Some e \<and> SQLUnescape (SQ # e @ [SQ]) = cstr s"
    by blast
next
  assume "INT_MAX < length (cstr s)"
  then have "SQLEscapeLiteral s = None"
    by (rule SQLEscapeLiteral_long)
  then show "\<not> (\<exists>e. SQLEscapeLiteral s = Some e \<and> SQLUnescape (SQ # e @ [SQ]) = cstr s)"
    by simp
next
  show n: "SQLEscapeLiteral (replicate 2147483648 (CHR ''a'')) = None"
    by (rule SQLEscapeLiteral_long) (simp add: cstr_def INT_MAX_def)
  show "\<not> (\<exists>e. SQLEscapeLiteral (replicate 2147483648 (CHR ''a'')) = Some e
              \<and> SQLUnescape (SQ # e @ [SQ]) = replicate 2147483648 (CHR ''a''))"
    by (simp add: n)
qed

theorem SQLUnescape_SQLEscapeLiteral_roundtrip_until_int_overflow_witness:
  "SQLEscapeLiteral ''it's'' = Some (''it'' @ [SQ, SQ] @ ''s'')
   \<and> SQLUnescape (SQ # (''it'' @ [SQ, SQ] @ ''s'') @ [SQ]) = ''it's''
   \<and> \<not> (\<exists>e. SQLEscapeLiteral (replicate 2147483649 (CHR ''b'')) = Some e
              \<and> SQLUnescape (SQ # e @ [SQ]) = replicate 2147483649 (CHR ''b''))"
proof -
  have e: "SQLEscapeLiteral ''it's'' = Some (''it'' @ [SQ, SQ] @ ''s'')"
    by (simp add: SQLEscapeLiteral_short INT_MAX_def)
  from e SQLUnescape_SQLEscapeLiteral_roundtrip_until_int_overflow [of "''it's''"]
  have r: "SQLUnescape (SQ # (''it'' @ [SQ, SQ] @ ''s'') @ [SQ]) = ''it's''"
    by (simp add: INT_MAX_def)
  have c: "cstr (replicate 2147483649 (CHR ''b'')) = replicate 2147483649 (CHR ''b'')"
    by (simp add: cstr_def)
  have l: "INT_MAX < length (cstr (replicate 2147483649 (CHR ''b'')))"
    by (simp add: cstr_def INT_MAX_def)
  from l SQLUnescape_SQLEscapeLiteral_roundtrip_until_int_overflow
    [of "replicate 2147483649 (CHR ''b'')"]
  have "\<not> (\<exists>e. SQLEscapeLiteral (replicate 2147483649 (CHR ''b'')) = Some e
              \<and> SQLUnescape (SQ # e @ [SQ]) = cstr (replicate 2147483649 (CHR ''b'')))"
    by blast
  with e r c show ?thesis by simp
qed

subsection \<open>The tokenizer\<close>

lemma SQLTokenize_loop_Nil [simp]: "SQLTokenize_loop [] st = st"
  by (simp add: SQLTokenize_loop.simps)

lemma SQLTokenize_loop_Cons [simp]:
  "SQLTokenize_loop (c # p) st =
     (if c = NUL then st
      else SQLTokenize_loop (fst (tok_step (c # p) st)) (snd (tok_step (c # p) st)))"
  by (subst SQLTokenize_loop.simps) simp

lemmas tok_defs = SQLTokenize_def tok_init_def tok_finish_def tok_step_def flush_word_def
  CSLAddString_def Let_def

text \<open>The loop is \<open>tok_run\<close> taken far enough.\<close>

lemma SQLTokenize_loop_tok_run:
  "length p \<le> n \<Longrightarrow> SQLTokenize_loop p st = snd (tok_run n (p, st))"
proof (induction n arbitrary: p st)
  case 0
  then show ?case by simp
next
  case (Suc n)
  show ?case
  proof (cases p)
    case Nil
    then show ?thesis by simp
  next
    case (Cons c r)
    have "length (fst (tok_step p st)) \<le> length r"
      by (auto simp: Cons tok_step_def Let_def)
    with Suc.prems Cons have "length (fst (tok_step p st)) \<le> n" by simp
    from Suc.IH [OF this, of "snd (tok_step p st)"] Cons show ?thesis
      by simp
  qed
qed

text \<open>The invariant holds before the loop, and every turn keeps it.\<close>

lemma tok_inv_init: "tok_inv tok_init"
  by (simp add: tok_inv_def tok_init_def)

lemma tok_inv_step:
  assumes "tok_inv st"
  shows "tok_inv (snd (tok_step p st))"
proof (cases "bInQuote st")
  case True
  with assms show ?thesis
    by (auto simp add: tok_inv_def tok_step_def Let_def CSLAddString_def)
next
  case False
  with assms show ?thesis
    by (auto simp add: tok_inv_def tok_step_def Let_def CSLAddString_def flush_word_def)
qed

lemma tok_inv_run: "tok_inv (snd cfg) \<Longrightarrow> tok_inv (snd (tok_run n cfg))"
  by (induction n arbitrary: cfg) (simp_all add: tok_inv_step)

lemma tok_inv_loop: "tok_inv st \<Longrightarrow> tok_inv (SQLTokenize_loop p st)"
  using SQLTokenize_loop_tok_run [of p "length p" st] tok_inv_run [of "(p, st)" "length p"]
  by simp

text \<open>Inside a quoted span, characters other than the quote that opened it and NUL are
  appended to the accumulator and change nothing else.\<close>

lemma SQLTokenize_loop_in_quote:
  "bInQuote st \<Longrightarrow> \<not> bInSpace st \<Longrightarrow> chQuoteChar st \<notin> set body \<Longrightarrow> NUL \<notin> set body \<Longrightarrow>
   SQLTokenize_loop body st = st\<lparr>osCurrentToken := osCurrentToken st @ body\<rparr>"
proof (induction body arbitrary: st)
  case Nil
  then show ?case by simp
next
  case (Cons c body)
  let ?st' = "st\<lparr>osCurrentToken := osCurrentToken st @ [c]\<rparr>"
  from Cons.prems have step: "tok_step (c # body) st = (body, ?st')"
    by (cases st) (auto simp: tok_step_def Let_def)
  from Cons.prems
  have "SQLTokenize_loop body ?st' = ?st'\<lparr>osCurrentToken := osCurrentToken ?st' @ body\<rparr>"
    by (intro Cons.IH) simp_all
  with Cons.prems step show ?case by auto
qed

text \<open>A quote outside any span opens one, and an input that never repeats that quote
  leaves the span open with all of it in the accumulator.\<close>

lemma SQLTokenize_loop_open_quote:
  assumes "\<not> bInQuote st" "q = SQ \<or> q = DQ" "q \<notin> set body" "NUL \<notin> set body"
  shows "SQLTokenize_loop (q # body) st =
         st\<lparr>chQuoteChar := q, osCurrentToken := q # body, bInQuote := True, bInSpace := False\<rparr>"
proof -
  let ?st' = "st\<lparr>chQuoteChar := q, osCurrentToken := [q], bInQuote := True, bInSpace := False\<rparr>"
  from assms have step: "tok_step (q # body) st = (body, ?st')"
    by (auto simp: tok_step_def Let_def)
  from assms
  have "SQLTokenize_loop body ?st' = ?st'\<lparr>osCurrentToken := osCurrentToken ?st' @ body\<rparr>"
    by (intro SQLTokenize_loop_in_quote) simp_all
  with assms step show ?thesis by auto
qed

text \<open>Between tokens a space changes nothing.\<close>

lemma tok_step_space_in_gap:
  "bInSpace st \<Longrightarrow> \<not> bInQuote st \<Longrightarrow> tok_step (CHR '' '' # p) st = (p, st)"
  by (cases st) (simp add: tok_step_def Let_def flush_word_def)

lemma SQLTokenize_loop_spaces:
  "bInSpace st \<Longrightarrow> \<not> bInQuote st \<Longrightarrow> SQLTokenize_loop (replicate n (CHR '' '')) st = st"
  by (induction n) (simp_all add: tok_step_space_in_gap)

text \<open>On punctuation and spaces, started between tokens, the loop adds one token for
  each punctuation character and nothing else.\<close>

lemma SQLTokenize_loop_punct_space:
  "\<not> bInQuote st \<Longrightarrow> bInSpace st \<Longrightarrow> osCurrentToken st = [] \<Longrightarrow>
   \<forall>c \<in> set s. is_punct c \<or> c = CHR '' '' \<Longrightarrow>
   SQLTokenize_loop s st =
   st\<lparr>papszTokens := papszTokens st @ map (\<lambda>c. [c]) (filter is_punct s)\<rparr>"
proof (induction s arbitrary: st)
  case Nil
  then show ?case by simp
next
  case (Cons c s)
  show ?case
  proof (cases "c = CHR '' ''")
    case True
    with Cons.prems have step: "tok_step (c # s) st = (s, st)"
      by (simp add: tok_step_space_in_gap)
    have np: "\<not> is_punct (CHR '' '')" by (simp add: is_punct_def)
    from Cons.prems
    have "SQLTokenize_loop s st =
          st\<lparr>papszTokens := papszTokens st @ map (\<lambda>c. [c]) (filter is_punct s)\<rparr>"
      by (intro Cons.IH) simp_all
    with True step np show ?thesis by simp
  next
    case False
    with Cons.prems have pc: "is_punct c" by simp
    let ?st' = "st\<lparr>papszTokens := papszTokens st @ [[c]]\<rparr>"
    from Cons.prems pc have step: "tok_step (c # s) st = (s, ?st')"
      by (cases st) (auto simp add: is_punct_def tok_step_def Let_def flush_word_def CSLAddString_def)
    from Cons.prems
    have "SQLTokenize_loop s ?st' =
          ?st'\<lparr>papszTokens := papszTokens ?st' @ map (\<lambda>c. [c]) (filter is_punct s)\<rparr>"
      by (intro Cons.IH) simp_all
    moreover from pc have "c \<noteq> NUL" by (auto simp: is_punct_def)
    ultimately show ?thesis using pc step by simp
  qed
qed

text \<open>
  Claim C1. Inside a quoted span opened by the quote character \<open>q\<close>, at a \<open>q\<close> that is
  followed by another \<open>q\<close>, the tokenizer appends both to the current token and moves two
  positions on without closing the span; so \<^verbatim>\<open>'it''s'\<close> is one token, the doubled quote
  kept as it is.

  The turn of the loop at \<open>q # q # rest\<close> leaves the pointer at \<open>rest\<close> and changes the
  accumulator only: \<open>bInQuote\<close> stays set and the list of tokens is the same.
\<close>

theorem SQLTokenize_doubled_quote:
  "(bInQuote st \<and> chQuoteChar st = q \<and> (q = SQ \<or> q = DQ) \<longrightarrow>
      tok_step (q # q # rest) st = (rest, st\<lparr>osCurrentToken := osCurrentToken st @ [q, q]\<rparr>)
      \<and> SQLTokenize_loop (q # q # rest) st =
          SQLTokenize_loop rest (st\<lparr>osCurrentToken := osCurrentToken st @ [q, q]\<rparr>))
   \<and> SQLTokenize (SQ # ''it'' @ [SQ, SQ] @ ''s'' @ [SQ]) = [SQ # ''it'' @ [SQ, SQ] @ ''s'' @ [SQ]]"
proof (intro conjI impI)
  assume h: "bInQuote st \<and> chQuoteChar st = q \<and> (q = SQ \<or> q = DQ)"
  then show step: "tok_step (q # q # rest) st =
      (rest, st\<lparr>osCurrentToken := osCurrentToken st @ [q, q]\<rparr>)"
    by (auto simp: tok_step_def Let_def)
  from h have "q \<noteq> NUL" by auto
  with step show "SQLTokenize_loop (q # q # rest) st =
      SQLTokenize_loop rest (st\<lparr>osCurrentToken := osCurrentToken st @ [q, q]\<rparr>)"
    by simp
next
  show "SQLTokenize (SQ # ''it'' @ [SQ, SQ] @ ''s'' @ [SQ]) = [SQ # ''it'' @ [SQ, SQ] @ ''s'' @ [SQ]]"
    by (simp add: tok_defs)
qed

theorem SQLTokenize_doubled_quote_witness:
  "tok_step (DQ # DQ # ''b'')
     \<lparr>papszTokens = [''x''], bInQuote = True, chQuoteChar = DQ, bInSpace = False,
      osCurrentToken = DQ # ''a''\<rparr>
   = (''b'',
      \<lparr>papszTokens = [''x''], bInQuote = True, chQuoteChar = DQ, bInSpace = False,
       osCurrentToken = DQ # ''a'' @ [DQ, DQ]\<rparr>)"
  using SQLTokenize_doubled_quote
    [of "\<lparr>papszTokens = [''x''], bInQuote = True, chQuoteChar = DQ, bInSpace = False,
          osCurrentToken = DQ # ''a''\<rparr>" DQ "''b''"]
  by simp

text \<open>
  Claim C3. No token returned by \<^verbatim>\<open>SQLTokenize\<close> is the empty string, whatever the
  input; the empty input gives no token, runs of spaces give none, and
  \<^verbatim>\<open>"  x   y  "\<close> gives exactly \<open>x\<close> and \<open>y\<close>.
\<close>

theorem SQLTokenize_no_empty_token:
  "[] \<notin> set (SQLTokenize s)
   \<and> SQLTokenize [] = []
   \<and> SQLTokenize (replicate n (CHR '' '')) = []
   \<and> SQLTokenize ''  x   y  '' = [''x'', ''y'']"
proof (intro conjI)
  have "tok_inv (SQLTokenize_loop s tok_init)"
    by (rule tok_inv_loop [OF tok_inv_init])
  then show "[] \<notin> set (SQLTokenize s)"
    by (simp add: SQLTokenize_def tok_finish_def CSLAddString_def tok_inv_def)
next
  show "SQLTokenize [] = []"
    by (simp add: tok_defs)
next
  show "SQLTokenize (replicate n (CHR '' '')) = []"
    by (simp add: SQLTokenize_def SQLTokenize_loop_spaces tok_init_def tok_finish_def)
next
  show "SQLTokenize ''  x   y  '' = [''x'', ''y'']"
    by (simp add: tok_defs)
qed

text \<open>
  Claim C4. \<^verbatim>\<open>SQLTokenize\<close> returns a list of tokens for every input and has no error
  result; when the input ends inside a quoted span, what was collected, from the opening
  quote on and with no closing quote, is the last token.

  \<open>SQLTokenize\<close> is a total function into lists of strings: its loop terminates on every
  input. First conjunct: whenever the loop ends with \<open>bInQuote\<close> set, the result is the
  tokens before the span followed by the accumulator, which is not empty and starts with
  the quote that opened the span. Second and third: a quote met outside a span and
  followed by a body without that quote makes the last token that quote and the body.
\<close>

theorem SQLTokenize_unterminated_quote:
  "(bInQuote (SQLTokenize_loop s tok_init) \<longrightarrow>
      SQLTokenize s = papszTokens (SQLTokenize_loop s tok_init)
                        @ [osCurrentToken (SQLTokenize_loop s tok_init)]
      \<and> osCurrentToken (SQLTokenize_loop s tok_init) \<noteq> []
      \<and> hd (osCurrentToken (SQLTokenize_loop s tok_init))
          = chQuoteChar (SQLTokenize_loop s tok_init)
      \<and> (chQuoteChar (SQLTokenize_loop s tok_init) = SQ
           \<or> chQuoteChar (SQLTokenize_loop s tok_init) = DQ))
   \<and> (\<not> bInQuote st \<and> (q = SQ \<or> q = DQ) \<and> q \<notin> set body \<and> NUL \<notin> set body \<longrightarrow>
        bInQuote (SQLTokenize_loop (q # body) st)
        \<and> tok_finish (SQLTokenize_loop (q # body) st) = papszTokens st @ [q # body])
   \<and> ((q = SQ \<or> q = DQ) \<and> q \<notin> set body \<and> NUL \<notin> set body \<longrightarrow>
        SQLTokenize (q # body) = [q # body])
   \<and> SQLTokenize (''a '' @ [SQ] @ ''bc'') = [''a'', SQ # ''bc'']"
proof (intro conjI impI)
  assume q: "bInQuote (SQLTokenize_loop s tok_init)"
  have inv: "tok_inv (SQLTokenize_loop s tok_init)"
    by (rule tok_inv_loop [OF tok_inv_init])
  from q inv show "SQLTokenize s = papszTokens (SQLTokenize_loop s tok_init)
                        @ [osCurrentToken (SQLTokenize_loop s tok_init)]"
    by (simp add: SQLTokenize_def tok_finish_def CSLAddString_def tok_inv_def)
  from q inv show "osCurrentToken (SQLTokenize_loop s tok_init) \<noteq> []"
    by (simp add: tok_inv_def)
  from q inv show "hd (osCurrentToken (SQLTokenize_loop s tok_init))
          = chQuoteChar (SQLTokenize_loop s tok_init)"
    by (simp add: tok_inv_def)
  from q inv show "chQuoteChar (SQLTokenize_loop s tok_init) = SQ
           \<or> chQuoteChar (SQLTokenize_loop s tok_init) = DQ"
    by (simp add: tok_inv_def)
next
  assume h: "\<not> bInQuote st \<and> (q = SQ \<or> q = DQ) \<and> q \<notin> set body \<and> NUL \<notin> set body"
  then have eq: "SQLTokenize_loop (q # body) st =
      st\<lparr>chQuoteChar := q, osCurrentToken := q # body, bInQuote := True, bInSpace := False\<rparr>"
    by (intro SQLTokenize_loop_open_quote) simp_all
  show "bInQuote (SQLTokenize_loop (q # body) st)"
    by (simp only: eq) simp
  show "tok_finish (SQLTokenize_loop (q # body) st) = papszTokens st @ [q # body]"
    by (simp only: eq) (simp add: tok_finish_def CSLAddString_def)
next
  assume h: "(q = SQ \<or> q = DQ) \<and> q \<notin> set body \<and> NUL \<notin> set body"
  then have eq: "SQLTokenize_loop (q # body) tok_init =
      tok_init\<lparr>chQuoteChar := q, osCurrentToken := q # body, bInQuote := True, bInSpace := False\<rparr>"
    by (intro SQLTokenize_loop_open_quote) (simp_all add: tok_init_def)
  show "SQLTokenize (q # body) = [q # body]"
    unfolding SQLTokenize_def by (simp only: eq) (simp add: tok_finish_def CSLAddString_def tok_init_def)
next
  show "SQLTokenize (''a '' @ [SQ] @ ''bc'') = [''a'', SQ # ''bc'']"
    by (simp add: tok_defs)
qed

theorem SQLTokenize_unterminated_quote_witness:
  "bInQuote (SQLTokenize_loop (''a '' @ [SQ] @ ''b'' @ [SQ, SQ] @ ''c'') tok_init)
   \<and> SQLTokenize (''a '' @ [SQ] @ ''b'' @ [SQ, SQ] @ ''c'') = [''a'', SQ # ''b'' @ [SQ, SQ] @ ''c'']
   \<and> SQLTokenize (DQ # ''b c'') = [DQ # ''b c'']
   \<and> tok_finish (SQLTokenize_loop (DQ # ''b c'') tok_init) = [DQ # ''b c'']"
proof -
  have q: "bInQuote (SQLTokenize_loop (''a '' @ [SQ] @ ''b'' @ [SQ, SQ] @ ''c'') tok_init)"
    by (simp add: tok_defs)
  have t: "papszTokens (SQLTokenize_loop (''a '' @ [SQ] @ ''b'' @ [SQ, SQ] @ ''c'') tok_init) = [''a'']"
    "osCurrentToken (SQLTokenize_loop (''a '' @ [SQ] @ ''b'' @ [SQ, SQ] @ ''c'') tok_init)
       = SQ # ''b'' @ [SQ, SQ] @ ''c''"
    by (simp_all add: tok_defs)
  from q SQLTokenize_unterminated_quote
    [of "''a '' @ [SQ] @ ''b'' @ [SQ, SQ] @ ''c''" tok_init DQ "''b c''"] t
  show ?thesis
    by (simp add: tok_init_def)
qed

text \<open>
  Claim C5. At one of the characters \<^verbatim>\<open>(\<close>, \<^verbatim>\<open>)\<close> and \<^verbatim>\<open>,\<close> outside a quoted span the
  tokenizer first flushes the accumulated token if it is not empty, then emits the
  character as a token of exactly one character; so \<^verbatim>\<open>f(a, b)\<close> gives \<open>f\<close>, \<open>(\<close>, \<open>a\<close>,
  \<open>,\<close>, \<open>b\<close>, \<open>)\<close>.

  The statement is about every configuration the scan of an input \<open>s\<close> reaches: after any
  number \<open>n\<close> of turns, at a punctuation character \<open>c\<close> outside a span, the next turn moves
  one position on, adds the accumulator to the tokens when it is not empty, adds the
  token \<open>[c]\<close>, and leaves the accumulator empty and \<open>bInSpace\<close> set.
\<close>

theorem SQLTokenize_punctuation:
  "(tok_run n (s, tok_init) = (c # p, st) \<and> is_punct c \<and> \<not> bInQuote st \<longrightarrow>
      tok_step (c # p) st =
        (p, st\<lparr>papszTokens :=
                   papszTokens st
                     @ (if osCurrentToken st \<noteq> [] then [osCurrentToken st] else [])
                     @ [[c]],
                 osCurrentToken := [],
                 bInSpace := True\<rparr>))
   \<and> SQLTokenize ''f(a, b)'' = [''f'', ''('', ''a'', '','', ''b'', '')'']"
proof (intro conjI impI)
  assume h: "tok_run n (s, tok_init) = (c # p, st) \<and> is_punct c \<and> \<not> bInQuote st"
  have "tok_inv (snd (tok_run n (s, tok_init)))"
    by (rule tok_inv_run) (simp add: tok_inv_init)
  with h have "bInSpace st = (osCurrentToken st = [])"
    by (simp add: tok_inv_def)
  with h show "tok_step (c # p) st =
        (p, st\<lparr>papszTokens :=
                   papszTokens st
                     @ (if osCurrentToken st \<noteq> [] then [osCurrentToken st] else [])
                     @ [[c]],
                 osCurrentToken := [],
                 bInSpace := True\<rparr>)"
    by (cases st) (auto simp: is_punct_def tok_step_def Let_def flush_word_def CSLAddString_def)
next
  show "SQLTokenize ''f(a, b)'' = [''f'', ''('', ''a'', '','', ''b'', '')'']"
    by (simp add: tok_defs)
qed

theorem SQLTokenize_punctuation_witness:
  "tok_run 1 (''f('', tok_init) =
     (''('', \<lparr>papszTokens = [], bInQuote = False, chQuoteChar = NUL, bInSpace = False,
             osCurrentToken = ''f''\<rparr>)
   \<and> tok_step ''(''
        \<lparr>papszTokens = [], bInQuote = False, chQuoteChar = NUL, bInSpace = False,
         osCurrentToken = ''f''\<rparr>
      = ([], \<lparr>papszTokens = [''f'', ''(''], bInQuote = False, chQuoteChar = NUL,
              bInSpace = True, osCurrentToken = []\<rparr>)"
proof -
  have r: "tok_run 1 (''f('', tok_init) =
     (''('', \<lparr>papszTokens = [], bInQuote = False, chQuoteChar = NUL, bInSpace = False,
             osCurrentToken = ''f''\<rparr>)"
    by (simp add: tok_step_def Let_def tok_init_def)
  have "is_punct (CHR ''('')"
    by (simp add: is_punct_def)
  with r SQLTokenize_punctuation [of 1 "''f(''" "CHR ''(''" "[]"
      "\<lparr>papszTokens = [], bInQuote = False, chQuoteChar = NUL, bInSpace = False,
        osCurrentToken = ''f''\<rparr>"]
  show ?thesis by simp
qed

text \<open>
  Claim C10. A quote character met while an unquoted word is being accumulated (not
  inside a quoted span) discards the word: the accumulator is cleared, nothing is
  emitted, and a new quoted token begins with that quote; so \<^verbatim>\<open>ab'c'\<close> gives the one
  token \<^verbatim>\<open>'c'\<close> and no token \<open>ab\<close>.

  At a quote outside a span the turn of the loop leaves the list of tokens as it was,
  whatever the accumulator held, and makes the accumulator the quote alone.
\<close>

theorem SQLTokenize_quote_discards_word:
  "((c = SQ \<or> c = DQ) \<and> \<not> bInQuote st \<longrightarrow>
      tok_step (c # p) st =
        (p, st\<lparr>chQuoteChar := c, osCurrentToken := [c], bInQuote := True, bInSpace := False\<rparr>)
      \<and> papszTokens (snd (tok_step (c # p) st)) = papszTokens st)
   \<and> SQLTokenize (''ab'' @ [SQ] @ ''c'' @ [SQ]) = [[SQ] @ ''c'' @ [SQ]]
   \<and> ''ab'' \<notin> set (SQLTokenize (''ab'' @ [SQ] @ ''c'' @ [SQ]))"
proof (intro conjI impI)
  assume h: "(c = SQ \<or> c = DQ) \<and> \<not> bInQuote st"
  then show step: "tok_step (c # p) st =
        (p, st\<lparr>chQuoteChar := c, osCurrentToken := [c], bInQuote := True, bInSpace := False\<rparr>)"
    by (auto simp: tok_step_def Let_def)
  show "papszTokens (snd (tok_step (c # p) st)) = papszTokens st"
    by (simp only: step) simp
next
  show "SQLTokenize (''ab'' @ [SQ] @ ''c'' @ [SQ]) = [[SQ] @ ''c'' @ [SQ]]"
    by (simp add: tok_defs)
next
  show "''ab'' \<notin> set (SQLTokenize (''ab'' @ [SQ] @ ''c'' @ [SQ]))"
    by (simp add: tok_defs)
qed

theorem SQLTokenize_quote_discards_word_witness:
  "tok_step (SQ # ''c'')
     \<lparr>papszTokens = [''x''], bInQuote = False, chQuoteChar = NUL, bInSpace = False,
      osCurrentToken = ''ab''\<rparr>
   = (''c'',
      \<lparr>papszTokens = [''x''], bInQuote = True, chQuoteChar = SQ, bInSpace = False,
       osCurrentToken = [SQ]\<rparr>)"
  using SQLTokenize_quote_discards_word
    [of SQ "\<lparr>papszTokens = [''x''], bInQuote = False, chQuoteChar = NUL, bInSpace = False,
              osCurrentToken = ''ab''\<rparr>" "''c''"]
  by simp

text \<open>
  Claim C8, as the specification has it: on an input of punctuation and space characters
  only, every character of the input becomes a token of its own. It fails where the
  input has a space: \<^verbatim>\<open>( )\<close> gives the two tokens \<open>(\<close> and \<open>)\<close>, not three.
\<close>

theorem SQLTokenize_space_is_no_token:
  "SQLTokenize ''( )'' = [''('', '')''] \<and> SQLTokenize ''( )'' \<noteq> [''('', '' '', '')'']"
  by (simp add: tok_defs)

text \<open>
  Claim C8, amended: on an input of punctuation and space characters only, the tokens
  are the punctuation characters of the input, each as a token of one character, in the
  order of the input; the spaces separate and give no token.
\<close>

theorem SQLTokenize_punct_space_only:
  "((\<forall>c \<in> set s. is_punct c \<or> c = CHR '' '') \<longrightarrow>
      SQLTokenize s = map (\<lambda>c. [c]) (filter is_punct s))
   \<and> SQLTokenize ''(,)'' = [''('', '','', '')'']"
proof (intro conjI impI)
  assume "\<forall>c \<in> set s. is_punct c \<or> c = CHR '' ''"
  then have "SQLTokenize_loop s tok_init =
      tok_init\<lparr>papszTokens := papszTokens tok_init @ map (\<lambda>c. [c]) (filter is_punct s)\<rparr>"
    by (intro SQLTokenize_loop_punct_space) (simp_all add: tok_init_def)
  then show "SQLTokenize s = map (\<lambda>c. [c]) (filter is_punct s)"
    by (simp add: SQLTokenize_def tok_finish_def tok_init_def)
next
  show "SQLTokenize ''(,)'' = [''('', '','', '')'']"
    by (simp add: tok_defs)
qed

theorem SQLTokenize_punct_space_only_witness:
  "SQLTokenize '' ( ,)  '' = [''('', '','', '')'']"
  using SQLTokenize_punct_space_only [of "'' ( ,)  ''"]
  by (simp add: is_punct_def)

end
